theory Spec2Isabelle
  imports Main
begin

section \<open>Python strings, restricted to ASCII\<close>

text \<open>
  A Python \<open>str\<close> is modelled as a \<open>string\<close>, one \<open>char\<close> per code point. The model
  covers ASCII text: \<open>str.upper\<close>, \<open>str.lower\<close>, \<open>str.isalpha\<close>, \<open>str.isupper\<close> and
  \<open>str.strip\<close> below act on the ASCII letters and the ASCII white space exactly as
  Python's do; code points above 127 are outside the model (the functions below treat
  them as uncased non-letters).
\<close>

definition ascii_lowercase :: string where
  "ascii_lowercase = ''abcdefghijklmnopqrstuvwxyz''"

definition ascii_uppercase :: string where
  "ascii_uppercase = ''ABCDEFGHIJKLMNOPQRSTUVWXYZ''"

definition whitespace :: string where
  "whitespace = [CHR 0x09, CHR 0x0A, CHR 0x0B, CHR 0x0C, CHR 0x0D,
                 CHR 0x1C, CHR 0x1D, CHR 0x1E, CHR 0x1F, CHR 0x20]"

definition upper_char :: "char \<Rightarrow> char" where
  "upper_char c =
     (case map_of (zip ascii_lowercase ascii_uppercase) c of Some u \<Rightarrow> u | None \<Rightarrow> c)"

definition lower_char :: "char \<Rightarrow> char" where
  "lower_char c =
     (case map_of (zip ascii_uppercase ascii_lowercase) c of Some l \<Rightarrow> l | None \<Rightarrow> c)"

definition upper :: "string \<Rightarrow> string" where
  "upper s = map upper_char s"

definition lower :: "string \<Rightarrow> string" where
  "lower s = map lower_char s"

definition isalpha_char :: "char \<Rightarrow> bool" where
  "isalpha_char c = (c \<in> set (ascii_lowercase @ ascii_uppercase))"

definition isalpha :: "string \<Rightarrow> bool" where
  \<comment> \<open>\<open>str.isalpha\<close>: every character is a letter and there is at least one character.\<close>
  "isalpha s = (s \<noteq> [] \<and> list_all isalpha_char s)"

definition isupper :: "string \<Rightarrow> bool" where
  \<comment> \<open>\<open>str.isupper\<close>: no lowercase letter and at least one uppercase letter.\<close>
  "isupper s = (list_ex (\<lambda>c. c \<in> set ascii_uppercase) s
                \<and> \<not> list_ex (\<lambda>c. c \<in> set ascii_lowercase) s)"

definition isspace_char :: "char \<Rightarrow> bool" where
  "isspace_char c = (c \<in> set whitespace)"

definition strip :: "string \<Rightarrow> string" where
  \<comment> \<open>\<open>str.strip()\<close>: drops leading and trailing white space.\<close>
  "strip s = rev (dropWhile isspace_char (rev (dropWhile isspace_char s)))"


datatype py_error = IndexError | KeyError | ValidationError

definition getitem :: "'a list \<Rightarrow> nat \<Rightarrow> py_error + 'a" where
  \<comment> \<open>\<open>xs[i]\<close> for a non-negative index.\<close>
  "getitem xs i = (if i < length xs then Inr (xs ! i) else Inl IndexError)"


section \<open>The colouring engine: \<open>game/utils.py\<close>\<close>

text \<open>
  \<open>compute_guess_colors\<close> keeps a list \<open>result\<close> of five (letter, colour) pairs, both
  strings, and a dictionary \<open>target_freq\<close> from characters to integers. Its three loops
  are the three recursive functions below; the two \<open>range(5)\<close> loops run over the list of
  indices. An index out of range and a missing dictionary key are the errors Python
  raises there.
\<close>

type_synonym colored = "string \<times> string"
type_synonym freq_dict = "char \<rightharpoonup> int"

fun build_freq :: "string \<Rightarrow> freq_dict \<Rightarrow> freq_dict" where
  "build_freq [] target_freq = target_freq"
| "build_freq (c # cs) target_freq =
     build_freq cs
       (target_freq(c \<mapsto> (case target_freq c of None \<Rightarrow> 0 | Some n \<Rightarrow> n) + 1))"

fun first_pass ::
  "string \<Rightarrow> string \<Rightarrow> nat list \<Rightarrow> colored list \<times> freq_dict
     \<Rightarrow> py_error + (colored list \<times> freq_dict)" where
  "first_pass guess target [] (result, target_freq) = Inr (result, target_freq)"
| "first_pass guess target (i # is) (result, target_freq) =
     (case getitem guess i of
        Inl e \<Rightarrow> Inl e
      | Inr g \<Rightarrow>
         (case getitem target i of
            Inl e \<Rightarrow> Inl e
          | Inr t \<Rightarrow>
             if g = t then
               (case target_freq g of
                  None \<Rightarrow> Inl KeyError
                | Some n \<Rightarrow>
                    first_pass guess target is
                      (result[i := ([g], ''green'')], target_freq(g \<mapsto> n - 1)))
             else first_pass guess target is (result, target_freq)))"

fun second_pass ::
  "string \<Rightarrow> nat list \<Rightarrow> colored list \<times> freq_dict
     \<Rightarrow> py_error + (colored list \<times> freq_dict)" where
  "second_pass guess [] (result, target_freq) = Inr (result, target_freq)"
| "second_pass guess (i # is) (result, target_freq) =
     (case getitem result i of
        Inl e \<Rightarrow> Inl e
      | Inr r \<Rightarrow>
         if snd r = ''green'' then second_pass guess is (result, target_freq)
         else
           (case getitem guess i of
              Inl e \<Rightarrow> Inl e
            | Inr letter \<Rightarrow>
               (case target_freq letter of
                  Some n \<Rightarrow>
                    if n > 0 then
                      second_pass guess is
                        (result[i := ([letter], ''orange'')], target_freq(letter \<mapsto> n - 1))
                    else second_pass guess is (result[i := ([letter], ''grey'')], target_freq)
                | None \<Rightarrow>
                    second_pass guess is (result[i := ([letter], ''grey'')], target_freq))))"

definition compute_guess_colors :: "string \<Rightarrow> string \<Rightarrow> py_error + colored list" where
  "compute_guess_colors guess0 target0 =
     (let guess = upper guess0;
          target = upper target0;
          result = replicate 5 ('''', '''');
          target_freq = build_freq target Map.empty
      in case first_pass guess target [0..<5] (result, target_freq) of
           Inl e \<Rightarrow> Inl e
         | Inr st \<Rightarrow>
            (case second_pass guess [0..<5] st of
               Inl e \<Rightarrow> Inl e
             | Inr (result', _) \<Rightarrow> Inr result'))"


definition remaining_of :: "freq_dict \<Rightarrow> char \<Rightarrow> int" where
  \<comment> \<open>\<open>target_freq.get(c, 0)\<close>: the count the dictionary holds for a letter.\<close>
  "remaining_of target_freq c = (case target_freq c of None \<Rightarrow> 0 | Some n \<Rightarrow> n)"


subsection \<open>The two-pass algorithm as the specification words it\<close>

text \<open>
  The reference algorithm of the specification, written independently of the code: a
  frequency count of the target's letters; pass 1 marks the positions where guess and
  target agree and decrements the count of the letter there; pass 2 walks the positions
  from left to right, keeps EXACT where pass 1 marked, and elsewhere gives PRESENT and
  decrements when the remaining count is positive, ABSENT otherwise.
\<close>

datatype letter_class = EXACT | PRESENT | ABSENT

definition frequency_count :: "string \<Rightarrow> char \<Rightarrow> int" where
  "frequency_count target = (\<lambda>c. int (count_list target c))"

fun spec_pass1 :: "string \<Rightarrow> string \<Rightarrow> (char \<Rightarrow> int) \<Rightarrow> bool list \<times> (char \<Rightarrow> int)" where
  "spec_pass1 (g # gs) (t # ts) remaining =
     (if g = t then
        (let (marks, remaining') = spec_pass1 gs ts (remaining(g := remaining g - 1))
         in (True # marks, remaining'))
      else
        (let (marks, remaining') = spec_pass1 gs ts remaining
         in (False # marks, remaining')))"
| "spec_pass1 _ _ remaining = ([], remaining)"

fun spec_pass2 :: "string \<Rightarrow> bool list \<Rightarrow> (char \<Rightarrow> int) \<Rightarrow> (char \<times> letter_class) list" where
  "spec_pass2 (g # gs) (m # ms) remaining =
     (if m then (g, EXACT) # spec_pass2 gs ms remaining
      else if remaining g > 0 then
        (g, PRESENT) # spec_pass2 gs ms (remaining(g := remaining g - 1))
      else (g, ABSENT) # spec_pass2 gs ms remaining)"
| "spec_pass2 _ _ remaining = []"

definition classify :: "string \<Rightarrow> string \<Rightarrow> (char \<times> letter_class) list" where
  "classify guess target =
     (let (marks, remaining) = spec_pass1 guess target (frequency_count target)
      in spec_pass2 guess marks remaining)"

fun color_of :: "letter_class \<Rightarrow> string" where
  "color_of EXACT = ''green''"
| "color_of PRESENT = ''orange''"
| "color_of ABSENT = ''grey''"

definition as_colored :: "char \<times> letter_class \<Rightarrow> colored" where
  "as_colored p = ([fst p], color_of (snd p))"

definition claimed :: "colored list \<Rightarrow> char \<Rightarrow> nat" where
  \<comment> \<open>The number of positions with letter \<open>L\<close> coloured green or orange.\<close>
  "claimed result L =
     length (filter (\<lambda>r. fst r = [L] \<and> (snd r = ''green'' \<or> snd r = ''orange'')) result)"

definition class_count :: "char \<Rightarrow> letter_class \<Rightarrow> (char \<times> letter_class) list \<Rightarrow> nat" where
  \<comment> \<open>The number of positions of a classification with letter \<open>L\<close> and class \<open>k\<close>.\<close>
  "class_count L k out = length (filter (\<lambda>p. fst p = L \<and> snd p = k) out)"

definition is_casing_of :: "string \<Rightarrow> string \<Rightarrow> bool" where
  \<comment> \<open>\<open>s'\<close> is \<open>s\<close> with each character in either case.\<close>
  "is_casing_of s' s =
     list_all2 (\<lambda>a b. a = upper_char b \<or> a = lower_char b) s' s"


section \<open>The guess form: \<open>game/forms.py\<close>\<close>

text \<open>
  \<open>GuessForm\<close> declares one field, \<open>forms.CharField(max_length=5, min_length=5)\<close>, and the
  method \<open>clean_guess\<close>. The field is the web framework's: it is required, it strips
  white space from the submitted value (\<open>strip=True\<close> is its default), rejects the empty
  value, and then runs its validators (minimum length, maximum length, no null
  character) on the stripped value, collecting their errors. \<open>clean_guess\<close> runs only on
  a value the field accepted. The submitted value is \<open>None\<close> when the request has no
  \<open>guess\<close> parameter.
\<close>

datatype form_error =
    Required
  | MinLength
  | MaxLength
  | NullCharacters
  | NotFiveLetters     \<comment> \<open>"Guess must be exactly 5 letters."\<close>
  | NotOnlyLetters     \<comment> \<open>"Guess must contain only letters."\<close>

definition CharField_clean :: "string option \<Rightarrow> form_error list + string" where
  "CharField_clean data =
     (let value = (case data of None \<Rightarrow> [] | Some raw \<Rightarrow> strip raw) in
      if value = [] then Inl [Required]
      else
        (let errors =
               (if length value < 5 then [MinLength] else [])
             @ (if length value > 5 then [MaxLength] else [])
             @ (if CHR 0x00 \<in> set value then [NullCharacters] else [])
         in if errors = [] then Inr value else Inl errors))"

definition clean_guess :: "string \<Rightarrow> form_error list + string" where
  "clean_guess value =
     (let guess = upper value in
      if length guess \<noteq> 5 then Inl [NotFiveLetters]
      else if \<not> isalpha guess then Inl [NotOnlyLetters]
      else Inr guess)"

definition GuessForm :: "string option \<Rightarrow> form_error list + string" where
  \<comment> \<open>\<open>GuessForm(request.POST)\<close>: \<open>Inl\<close> the errors when \<open>is_valid()\<close> is false,
      \<open>Inr\<close> the value of \<open>cleaned_data["guess"]\<close> otherwise.\<close>
  "GuessForm data =
     (case CharField_clean data of
        Inl errors \<Rightarrow> Inl errors
      | Inr value \<Rightarrow> clean_guess value)"


section \<open>The tables: \<open>game/models.py\<close>\<close>

text \<open>
  Each table is the list of its rows in insertion order. Users and calendar dates are
  natural numbers, and so are timestamps. \<open>target_word\<close> holds the text of the \<open>Word\<close>
  row the game refers to.
\<close>

record game =
  game_id :: nat
  game_user :: nat
  target_word :: string
  started_at :: nat
  finished_at :: "nat option"
  won :: bool

record guess =
  Guess_game :: nat
  Guess_text :: string
  Guess_index :: nat
  Guess_created_at :: nat

record daily_quota =
  quota_user :: nat
  quota_date :: nat
  words_started_count :: nat

record db =
  words :: "string list"
  games :: "game list"
  guesses :: "guess list"
  quotas :: "daily_quota list"

definition validate_uppercase_5letter :: "string \<Rightarrow> bool" where
  \<comment> \<open>True when the validator raises nothing.\<close>
  "validate_uppercase_5letter value =
     (if length value \<noteq> 5 then False
      else if \<not> isupper value then False
      else if \<not> isalpha value then False
      else True)"

definition is_finished :: "game \<Rightarrow> bool" where
  "is_finished g = (finished_at g \<noteq> None)"

definition guesses_of :: "db \<Rightarrow> nat \<Rightarrow> guess list" where
  \<comment> \<open>\<open>game.guesses\<close>: the guesses whose foreign key is the game.\<close>
  "guesses_of st gid = filter (\<lambda>x. Guess_game x = gid) (guesses st)"

definition guesses_count :: "db \<Rightarrow> game \<Rightarrow> nat" where
  "guesses_count st g = length (guesses_of st (game_id g))"

definition can_guess :: "db \<Rightarrow> game \<Rightarrow> bool" where
  "can_guess st g = (\<not> is_finished g \<and> guesses_count st g < 5)"

definition Guess_full_clean :: "db \<Rightarrow> guess \<Rightarrow> bool" where
  \<comment> \<open>\<open>full_clean\<close> of a new \<open>Guess\<close>: the field validators of \<open>text\<close>, the check of
      \<open>Guess.clean\<close> on \<open>index\<close>, and \<open>unique_together\<close> on (game, index). True when
      nothing is raised.\<close>
  "Guess_full_clean st x =
     (length (Guess_text x) \<le> 5
      \<and> validate_uppercase_5letter (Guess_text x)
      \<and> \<not> (Guess_index x \<noteq> 0 \<and> (Guess_index x < 1 \<or> Guess_index x > 5))
      \<and> \<not> list_ex (\<lambda>y. Guess_game y = Guess_game x \<and> Guess_index y = Guess_index x)
             (guesses st))"

definition Guess_create :: "db \<Rightarrow> guess \<Rightarrow> py_error + db" where
  \<comment> \<open>\<open>Guess.objects.create\<close>: \<open>save\<close> runs \<open>full_clean\<close> (where \<open>clean\<close> uppercases
      the text), then inserts the row.\<close>
  "Guess_create st x =
     (if Guess_full_clean st x
      then Inr (st\<lparr>guesses := guesses st @ [x\<lparr>Guess_text := upper (Guess_text x)\<rparr>]\<rparr>)
      else Inl ValidationError)"

definition Game_save :: "db \<Rightarrow> game \<Rightarrow> db" where
  \<comment> \<open>\<open>game.save()\<close> of an existing row: the row with the game's primary key is replaced.\<close>
  "Game_save st g =
     st\<lparr>games := map (\<lambda>x. if game_id x = game_id g then g else x) (games st)\<rparr>"

definition fresh_game_id :: "db \<Rightarrow> nat" where
  \<comment> \<open>The primary key given to a new \<open>Game\<close> row: one not in use.\<close>
  "fresh_game_id st = Suc (fold max (map game_id (games st)) 0)"

definition DailyQuota_get_or_create :: "db \<Rightarrow> nat \<Rightarrow> nat \<Rightarrow> daily_quota \<times> db" where
  "DailyQuota_get_or_create st u d =
     (case find (\<lambda>q. quota_user q = u \<and> quota_date q = d) (quotas st) of
        Some q \<Rightarrow> (q, st)
      | None \<Rightarrow>
         (let q = \<lparr>quota_user = u, quota_date = d, words_started_count = 0\<rparr>
          in (q, st\<lparr>quotas := quotas st @ [q]\<rparr>)))"

definition DailyQuota_save :: "db \<Rightarrow> daily_quota \<Rightarrow> db" where
  "DailyQuota_save st q =
     st\<lparr>quotas := map (\<lambda>x. if quota_user x = quota_user q \<and> quota_date x = quota_date q
                              then q else x) (quotas st)\<rparr>"

fun latest_started :: "game list \<Rightarrow> game option" where
  \<comment> \<open>\<open>.first()\<close> under the model's ordering \<open>-started_at\<close>: a row with the greatest
      \<open>started_at\<close> (the earliest inserted of them, where the database leaves the choice
      open).\<close>
  "latest_started [] = None"
| "latest_started (g # gs) =
     (case latest_started gs of
        None \<Rightarrow> Some g
      | Some h \<Rightarrow> if started_at g \<ge> started_at h then Some g else Some h)"

definition active_game_of :: "db \<Rightarrow> nat \<Rightarrow> game option" where
  \<comment> \<open>\<open>Game.objects.filter(user=request.user, finished_at__isnull=True).first()\<close>\<close>
  "active_game_of st u =
     latest_started (filter (\<lambda>g. game_user g = u \<and> finished_at g = None) (games st))"

definition get_object_or_404 :: "db \<Rightarrow> nat \<Rightarrow> nat \<Rightarrow> game option" where
  \<comment> \<open>\<open>get_object_or_404(Game, id=game_id, user=request.user)\<close>; \<open>None\<close> is the 404.\<close>
  "get_object_or_404 st gid u =
     find (\<lambda>g. game_id g = gid \<and> game_user g = u) (games st)"

definition quota_count :: "db \<Rightarrow> nat \<Rightarrow> nat \<Rightarrow> nat" where
  \<comment> \<open>The count that \<open>get_or_create\<close> reads for (user, date): that of the row, 0 when
      there is none yet.\<close>
  "quota_count st u d = words_started_count (fst (DailyQuota_get_or_create st u d))"


section \<open>The request handlers: \<open>game/views.py\<close>\<close>

text \<open>
  A request carries its method, the logged-in user (\<open>None\<close> for an anonymous request,
  which \<open>login_required\<close> redirects to the login page) and the submitted \<open>guess\<close>
  parameter. A handler takes the database, the request, the clock (\<open>today\<close> for
  \<open>timezone.localdate()\<close>, \<open>now\<close> for \<open>timezone.now()\<close>) and, for \<open>random.choice\<close>, a
  number that picks the word; it returns what it answers and the database it leaves.
  Both handlers run inside \<open>transaction.atomic\<close>: an exception leaves the database as
  it was.
\<close>

record request =
  req_method :: string
  req_user :: "nat option"
  req_guess :: "string option"

datatype start_result =
    StartLoginRequired
  | StartNotPost                 \<comment> \<open>redirect to home, no message\<close>
  | QuotaExceeded                \<comment> \<open>"You've reached your daily limit of 3 games."\<close>
  | GameAlreadyActive nat        \<comment> \<open>redirect to \<open>game_detail\<close> of the active game\<close>
  | NoWordsAvailable
  | Started nat                  \<comment> \<open>redirect to \<open>game_detail\<close> of the new game\<close>

definition start_game :: "db \<Rightarrow> request \<Rightarrow> nat \<Rightarrow> nat \<Rightarrow> nat \<Rightarrow> start_result \<times> db" where
  "start_game st request today now pick =
     (case req_user request of
        None \<Rightarrow> (StartLoginRequired, st)
      | Some u \<Rightarrow>
         if req_method request \<noteq> ''POST'' then (StartNotPost, st)
         else
           (let (quota, st1) = DailyQuota_get_or_create st u today in
            if words_started_count quota \<ge> 3 then (QuotaExceeded, st1)
            else
              (case active_game_of st1 u of
                 Some active_game \<Rightarrow> (GameAlreadyActive (game_id active_game), st1)
               | None \<Rightarrow>
                  if words st1 = [] then (NoWordsAvailable, st1)
                  else
                    (let target = words st1 ! (pick mod length (words st1));
                         game = \<lparr>game_id = fresh_game_id st1, game_user = u,
                                 target_word = target, started_at = now,
                                 finished_at = None, won = False\<rparr>;
                         st2 = st1\<lparr>games := games st1 @ [game]\<rparr>;
                         st3 = DailyQuota_save st2
                                 (quota\<lparr>words_started_count := words_started_count quota + 1\<rparr>)
                     in (Started (game_id game), st3)))))"

datatype guess_result =
    GuessLoginRequired
  | NotFound
  | GameFinished                 \<comment> \<open>"This game is already finished or you've used all your guesses."\<close>
  | GuessNotPost                 \<comment> \<open>the board, no message\<close>
  | InvalidGuess "form_error list"
  | Raised py_error              \<comment> \<open>an exception left the handler; the transaction rolled back\<close>
  | Won
  | Lost
  | NotQuite nat                 \<comment> \<open>"Not quite! You have n guess(es) remaining."\<close>

definition submit_guess :: "db \<Rightarrow> request \<Rightarrow> nat \<Rightarrow> nat \<Rightarrow> guess_result \<times> db" where
  "submit_guess st request gid now =
     (case req_user request of
        None \<Rightarrow> (GuessLoginRequired, st)
      | Some u \<Rightarrow>
         (case get_object_or_404 st gid u of
            None \<Rightarrow> (NotFound, st)
          | Some game \<Rightarrow>
             if \<not> can_guess st game then (GameFinished, st)
             else if req_method request \<noteq> ''POST'' then (GuessNotPost, st)
             else
               (case GuessForm (req_guess request) of
                  Inl errors \<Rightarrow> (InvalidGuess errors, st)
                | Inr guess_text \<Rightarrow>
                   (let guess_index = guesses_count st game + 1 in
                    case Guess_create st \<lparr>Guess_game = game_id game, Guess_text = guess_text,
                                          Guess_index = guess_index, Guess_created_at = now\<rparr> of
                      Inl e \<Rightarrow> (Raised e, st)
                    | Inr st1 \<Rightarrow>
                       if guess_text = target_word game then
                         (Won, Game_save st1 (game\<lparr>won := True, finished_at := Some now\<rparr>))
                       else if guess_index \<ge> 5 then
                         (Lost, Game_save st1 (game\<lparr>finished_at := Some now, won := False\<rparr>))
                       else (NotQuite (5 - guess_index), st1)))))"

definition home :: "db \<Rightarrow> request \<Rightarrow> nat \<Rightarrow> db" where
  \<comment> \<open>The landing page: for a logged-in user it fetches or creates today's quota row.\<close>
  "home st request today =
     (case req_user request of
        None \<Rightarrow> st
      | Some u \<Rightarrow> snd (DailyQuota_get_or_create st u today))"

inductive step :: "db \<Rightarrow> db \<Rightarrow> bool" where
  \<comment> \<open>One request to a handler that writes; \<open>game_detail\<close> and the reports only read.\<close>
  step_home: "step st (home st request today)"
| step_start: "step st (snd (start_game st request today now pick))"
| step_guess: "step st (snd (submit_guess st request gid now))"

definition guess_indices_contiguous :: "db \<Rightarrow> nat \<Rightarrow> bool" where
  \<comment> \<open>The invariant of the data model: the guesses of a game carry the indices
      1, 2, ... in the order they were recorded.\<close>
  "guess_indices_contiguous st gid =
     (map Guess_index (guesses_of st gid) = [1 ..< Suc (length (guesses_of st gid))])"

definition game_ids_unique :: "db \<Rightarrow> bool" where
  \<comment> \<open>\<open>id\<close> is the primary key of the \<open>Game\<close> table.\<close>
  "game_ids_unique st = distinct (map game_id (games st))"


fun is_InvalidGuess :: "guess_result \<Rightarrow> bool" where
  "is_InvalidGuess (InvalidGuess errors) = True"
| "is_InvalidGuess _ = False"


subsection \<open>Example data\<close>

text \<open>
  A database for the worked examples: user 1 on date 10 with one game against APPLE,
  in three stages: just started, four wrong guesses in, and won.
\<close>

definition example_game :: game where
  "example_game = \<lparr>game_id = 1, game_user = 1, target_word = ''APPLE'', started_at = 100,
                    finished_at = None, won = False\<rparr>"

definition example_db :: db where
  "example_db = \<lparr>words = [''APPLE'', ''BRAVE''], games = [example_game], guesses = [],
                  quotas = [\<lparr>quota_user = 1, quota_date = 10, words_started_count = 1\<rparr>]\<rparr>"

definition example_db_four :: db where
  "example_db_four =
     example_db\<lparr>guesses :=
       map (\<lambda>i. \<lparr>Guess_game = 1, Guess_text = ''WRONG'', Guess_index = i,
                  Guess_created_at = 100 + i\<rparr>) [1, 2, 3, 4]\<rparr>"

definition example_game_won :: game where
  "example_game_won = example_game\<lparr>won := True, finished_at := Some 101\<rparr>"

definition example_db_won :: db where
  "example_db_won =
     \<lparr>words = [''APPLE'', ''BRAVE''], games = [example_game_won],
      guesses = [\<lparr>Guess_game = 1, Guess_text = ''APPLE'', Guess_index = 1,
                  Guess_created_at = 101\<rparr>],
      quotas = [\<lparr>quota_user = 1, quota_date = 10, words_started_count = 3\<rparr>]\<rparr>"

definition example_request :: "string \<Rightarrow> request" where
  "example_request raw = \<lparr>req_method = ''POST'', req_user = Some 1, req_guess = Some raw\<rparr>"


section \<open>The colouring engine computes the two-pass algorithm\<close>

subsection \<open>The dictionary and the frequency count\<close>

lemma remaining_of_build_freq:
  "remaining_of (build_freq t m) c = remaining_of m c + int (count_list t c)"
  by (induction t arbitrary: m) (auto simp: remaining_of_def split: option.splits)

lemma dom_build_freq: "dom (build_freq t m) = dom m \<union> set t"
  by (induction t arbitrary: m) auto

lemma remaining_of_decrement:
  "m c = Some v \<Longrightarrow> remaining_of (m(c \<mapsto> v - 1)) = (remaining_of m)(c := remaining_of m c - 1)"
  by (auto simp: remaining_of_def fun_eq_iff)

lemma fst_spec_pass1: "fst (spec_pass1 g t f) = map (\<lambda>(a, b). a = b) (zip g t)"
  by (induction g t f rule: spec_pass1.induct) (auto simp: case_prod_unfold Let_def fun_upd_def)

lemma first_pass_upt:
  assumes "length guess = n" "length target = n"
  shows "k \<le> n \<Longrightarrow> length res = n \<Longrightarrow>
     (\<forall>i. k \<le> i \<and> i < n \<and> guess ! i = target ! i \<longrightarrow> guess ! i \<in> dom m) \<Longrightarrow>
     \<exists>res' m'. first_pass guess target [k..<n] (res, m) = Inr (res', m')
        \<and> length res' = n
        \<and> (\<forall>i<n. res' ! i = (if k \<le> i \<and> guess ! i = target ! i
                                then ([guess ! i], ''green'') else res ! i))
        \<and> remaining_of m' = snd (spec_pass1 (drop k guess) (drop k target) (remaining_of m))"
proof (induction "n - k" arbitrary: k res m)
  case 0
  then have "k = n" by simp
  then show ?case using assms 0 by simp
next
  case (Suc d)
  then have kn: "k < n" by simp
  have upt: "[k..<n] = k # [Suc k..<n]" using kn by (simp add: upt_conv_Cons)
  have dg: "drop k guess = guess ! k # drop (Suc k) guess"
    using kn assms by (simp add: Cons_nth_drop_Suc)
  have dt: "drop k target = target ! k # drop (Suc k) target"
    using kn assms by (simp add: Cons_nth_drop_Suc)
  have d: "d = n - Suc k" using Suc.hyps by simp
  show ?case
  proof (cases "guess ! k = target ! k")
    case False
    have dom': "\<forall>i. Suc k \<le> i \<and> i < n \<and> guess ! i = target ! i \<longrightarrow> guess ! i \<in> dom m"
      using Suc.prems by auto
    from Suc.hyps(1)[OF d _ Suc.prems(2) dom'] kn
    obtain res' m' where *: "first_pass guess target [Suc k..<n] (res, m) = Inr (res', m')"
      "length res' = n"
      "\<forall>i<n. res' ! i = (if Suc k \<le> i \<and> guess ! i = target ! i
                                then ([guess ! i], ''green'') else res ! i)"
      "remaining_of m' = snd (spec_pass1 (drop (Suc k) guess) (drop (Suc k) target) (remaining_of m))"
      by auto
    have 1: "first_pass guess target [k..<n] (res, m) = Inr (res', m')"
      using False kn assms * by (simp add: upt getitem_def)
    have 2: "\<forall>i<n. res' ! i = (if k \<le> i \<and> guess ! i = target ! i
                                then ([guess ! i], ''green'') else res ! i)"
      using *(3) False by (metis Suc_leI le_neq_implies_less Suc_leD)
    have 3: "remaining_of m' = snd (spec_pass1 (drop k guess) (drop k target) (remaining_of m))"
      using *(4) False by (simp add: dg dt case_prod_unfold Let_def)
    show ?thesis using 1 2 3 *(2) by blast
  next
    case True
    then have "guess ! k \<in> dom m" using Suc.prems kn by auto
    then obtain v where v: "m (guess ! k) = Some v" by auto
    let ?res = "res[k := ([guess ! k], ''green'')]"
    let ?m = "m(guess ! k \<mapsto> v - 1)"
    have dom': "\<forall>i. Suc k \<le> i \<and> i < n \<and> guess ! i = target ! i \<longrightarrow> guess ! i \<in> dom ?m"
      using Suc.prems by auto
    have len: "length ?res = n" using Suc.prems by simp
    from Suc.hyps(1)[OF d _ len dom'] kn
    obtain res' m' where *: "first_pass guess target [Suc k..<n] (?res, ?m) = Inr (res', m')"
      "length res' = n"
      "\<forall>i<n. res' ! i = (if Suc k \<le> i \<and> guess ! i = target ! i
                                then ([guess ! i], ''green'') else ?res ! i)"
      "remaining_of m' = snd (spec_pass1 (drop (Suc k) guess) (drop (Suc k) target) (remaining_of ?m))"
      by auto
    have 1: "first_pass guess target [k..<n] (res, m) = Inr (res', m')"
      using True kn assms * v by (simp add: upt getitem_def)
    have 2: "\<forall>i<n. res' ! i = (if k \<le> i \<and> guess ! i = target ! i
                                then ([guess ! i], ''green'') else res ! i)"
    proof (intro allI impI)
      fix i assume i: "i < n"
      show "res' ! i = (if k \<le> i \<and> guess ! i = target ! i
                                then ([guess ! i], ''green'') else res ! i)"
      proof (cases "i = k")
        case True
        then show ?thesis using *(3) i \<open>guess ! k = target ! k\<close> Suc.prems by simp
      next
        case False
        then show ?thesis using *(3) i by auto
      qed
    qed
    have 3: "remaining_of m' = snd (spec_pass1 (drop k guess) (drop k target) (remaining_of m))"
      using *(4) True v by (simp add: dg dt case_prod_unfold Let_def remaining_of_decrement)
    show ?thesis using 1 2 3 *(2) by blast
  qed
qed

lemma second_pass_upt:
  assumes "length guess = n" "length marks = n"
  shows "k \<le> n \<Longrightarrow> length res = n \<Longrightarrow>
     (\<forall>i. k \<le> i \<and> i < n \<longrightarrow>
        (if marks ! i then res ! i = ([guess ! i], ''green'') else snd (res ! i) \<noteq> ''green'')) \<Longrightarrow>
     \<exists>res' m'. second_pass guess [k..<n] (res, m) = Inr (res', m')
        \<and> res' = take k res
             @ map as_colored (spec_pass2 (drop k guess) (drop k marks) (remaining_of m))"
proof (induction "n - k" arbitrary: k res m)
  case 0
  then have "k = n" by simp
  then show ?case using assms 0 by simp
next
  case (Suc d)
  then have kn: "k < n" by simp
  have upt: "[k..<n] = k # [Suc k..<n]" using kn by (simp add: upt_conv_Cons)
  have dg: "drop k guess = guess ! k # drop (Suc k) guess"
    using kn assms by (simp add: Cons_nth_drop_Suc)
  have dm: "drop k marks = marks ! k # drop (Suc k) marks"
    using kn assms by (simp add: Cons_nth_drop_Suc)
  have d: "d = n - Suc k" using Suc.hyps by simp
  have sk: "Suc k \<le> n" using kn by simp
  have gi: "getitem res k = Inr (res ! k)" "getitem guess k = Inr (guess ! k)"
    using kn assms Suc.prems by (simp_all add: getitem_def)
  have tk: "\<And>x. take (Suc k) (res[k := x]) = take k res @ [x]"
    using kn Suc.prems by (simp add: take_Suc_conv_app_nth)
  have inv': "\<And>x. \<forall>i. Suc k \<le> i \<and> i < n \<longrightarrow>
        (if marks ! i then (res[k := x]) ! i = ([guess ! i], ''green'')
         else snd ((res[k := x]) ! i) \<noteq> ''green'')"
    using Suc.prems(3) by auto
  have at_k: "if marks ! k then res ! k = ([guess ! k], ''green'') else snd (res ! k) \<noteq> ''green''"
    using Suc.prems(3) kn by auto
  show ?case
  proof (cases "marks ! k")
    case True
    then have rk: "res ! k = ([guess ! k], ''green'')" using at_k by simp
    have inv: "\<forall>i. Suc k \<le> i \<and> i < n \<longrightarrow>
        (if marks ! i then res ! i = ([guess ! i], ''green'') else snd (res ! i) \<noteq> ''green'')"
      using Suc.prems(3) by auto
    from Suc.hyps(1)[OF d sk Suc.prems(2) inv, of m]
    obtain res' m' where *: "second_pass guess [Suc k..<n] (res, m) = Inr (res', m')"
      "res' = take (Suc k) res
             @ map as_colored (spec_pass2 (drop (Suc k) guess) (drop (Suc k) marks) (remaining_of m))"
      by auto
    have 1: "second_pass guess [k..<n] (res, m) = Inr (res', m')"
      using * rk gi by (simp add: upt)
    have 2: "res' = take k res
             @ map as_colored (spec_pass2 (drop k guess) (drop k marks) (remaining_of m))"
      using *(2) True rk kn Suc.prems(2)
      by (simp add: dg dm take_Suc_conv_app_nth as_colored_def)
    show ?thesis using 1 2 by blast
  next
    case False
    then have ng: "snd (res ! k) \<noteq> ''green''" using at_k by simp
    show ?thesis
    proof (cases "remaining_of m (guess ! k) > 0")
      case True
      then obtain v where v: "m (guess ! k) = Some v" "v > 0"
        by (auto simp: remaining_of_def split: option.splits)
      let ?res = "res[k := ([guess ! k], ''orange'')]"
      let ?m = "m(guess ! k \<mapsto> v - 1)"
      have len: "length ?res = n" using Suc.prems by simp
      from Suc.hyps(1)[OF d sk len inv', of ?m]
      obtain res' m' where *: "second_pass guess [Suc k..<n] (?res, ?m) = Inr (res', m')"
        "res' = take (Suc k) ?res
             @ map as_colored (spec_pass2 (drop (Suc k) guess) (drop (Suc k) marks) (remaining_of ?m))"
        by auto
      have 1: "second_pass guess [k..<n] (res, m) = Inr (res', m')"
        using * ng gi v by (simp add: upt)
      have 2: "res' = take k res
             @ map as_colored (spec_pass2 (drop k guess) (drop k marks) (remaining_of m))"
        using *(2) False True v(1)
        by (simp add: dg dm tk as_colored_def remaining_of_decrement)
      show ?thesis using 1 2 by blast
    next
      case nonpos: False
      let ?res = "res[k := ([guess ! k], ''grey'')]"
      have len: "length ?res = n" using Suc.prems by simp
      from Suc.hyps(1)[OF d sk len inv', of m]
      obtain res' m' where *: "second_pass guess [Suc k..<n] (?res, m) = Inr (res', m')"
        "res' = take (Suc k) ?res
             @ map as_colored (spec_pass2 (drop (Suc k) guess) (drop (Suc k) marks) (remaining_of m))"
        by auto
      have 1: "second_pass guess [k..<n] (res, m) = Inr (res', m')"
        using * ng gi nonpos by (auto simp: upt remaining_of_def split: option.splits)
      have 2: "res' = take k res
             @ map as_colored (spec_pass2 (drop k guess) (drop k marks) (remaining_of m))"
        using *(2) False nonpos
        by (simp add: dg dm tk as_colored_def)
      show ?thesis using 1 2 by blast
    qed
  qed
qed

lemma length_upper: "length (upper s) = length s"
  by (simp add: upper_def)

lemma frequency_count_build_freq:
  "remaining_of (build_freq t Map.empty) = frequency_count t"
  by (simp add: fun_eq_iff remaining_of_build_freq frequency_count_def) (simp add: remaining_of_def)

lemma two_pass_eq_classify:
  assumes "length guess = n" "length target = n"
  shows "\<exists>st res' m'. first_pass guess target [0..<n] (replicate n ('''', ''''), build_freq target Map.empty) = Inr st
           \<and> second_pass guess [0..<n] st = Inr (res', m')
           \<and> res' = map as_colored (classify guess target)"
proof -
  let ?res = "replicate n ('''', '''')"
  let ?m = "build_freq target Map.empty"
  have dom: "\<forall>i. 0 \<le> i \<and> i < n \<and> guess ! i = target ! i \<longrightarrow> guess ! i \<in> dom ?m"
    using assms by (auto simp: dom_build_freq)
  from first_pass_upt[OF assms, where k=0 and res="?res" and m="?m"] dom
  obtain res1 m1 where 1: "first_pass guess target [0..<n] (?res, ?m) = Inr (res1, m1)"
     "length res1 = n"
     "\<forall>i<n. res1 ! i = (if guess ! i = target ! i then ([guess ! i], ''green'') else ?res ! i)"
     "remaining_of m1 = snd (spec_pass1 guess target (remaining_of ?m))"
    by auto
  let ?marks = "fst (spec_pass1 guess target (frequency_count target))"
  have lm: "length ?marks = n" using assms by (simp add: fst_spec_pass1)
  have mk: "\<And>i. i < n \<Longrightarrow> ?marks ! i = (guess ! i = target ! i)"
    using assms by (simp add: fst_spec_pass1)
  have inv: "\<forall>i. 0 \<le> i \<and> i < n \<longrightarrow>
        (if ?marks ! i then res1 ! i = ([guess ! i], ''green'') else snd (res1 ! i) \<noteq> ''green'')"
    using 1(3) mk by simp
  from second_pass_upt[OF assms(1) lm, where k=0 and res=res1 and m=m1] 1(2) inv
  obtain res2 m2 where 2: "second_pass guess [0..<n] (res1, m1) = Inr (res2, m2)"
     "res2 = map as_colored (spec_pass2 guess ?marks (remaining_of m1))"
    by auto
  have "res2 = map as_colored (classify guess target)"
    using 2(2) 1(4) by (simp add: classify_def case_prod_unfold Let_def frequency_count_build_freq)
  then show ?thesis using 1(1) 2(1) by blast
qed

lemma compute_guess_colors_classify:
  assumes "length guess = 5" "length target = 5"
  shows "compute_guess_colors guess target
           = Inr (map as_colored (classify (upper guess) (upper target)))"
proof -
  have "length (upper guess) = 5" "length (upper target) = 5"
    using assms by (simp_all add: length_upper)
  from two_pass_eq_classify[OF this]
  show ?thesis by (auto simp: compute_guess_colors_def Let_def)
qed

lemma map_fst_spec_pass2: "length ms = length g \<Longrightarrow> map fst (spec_pass2 g ms f) = g"
  by (induction g ms f rule: spec_pass2.induct) auto

lemma map_fst_classify:
  "length guess = length target \<Longrightarrow> map fst (classify guess target) = guess"
  by (simp add: classify_def case_prod_unfold Let_def map_fst_spec_pass2 fst_spec_pass1)

text \<open>
  C1. For 5-letter strings \<open>guess\<close> and \<open>target\<close> (alphabetic or not),
  \<open>compute_guess_colors\<close> returns what the reference two-pass algorithm gives on the
  uppercased inputs, with EXACT as green, PRESENT as orange and ABSENT as grey; the
  result has 5 pairs whose letters are those of the uppercased guess, in order.
\<close>

theorem compute_guess_colors_is_two_pass:
  assumes "length guess = 5" and "length target = 5"
  shows "compute_guess_colors guess target
           = Inr (map as_colored (classify (upper guess) (upper target)))
         \<and> length (classify (upper guess) (upper target)) = 5
         \<and> map fst (classify (upper guess) (upper target)) = upper guess"
proof -
  have m: "map fst (classify (upper guess) (upper target)) = upper guess"
    using assms by (simp add: map_fst_classify length_upper)
  have "length (map fst (classify (upper guess) (upper target))) = 5"
    using assms by (simp only: m length_upper)
  then have "length (classify (upper guess) (upper target)) = 5" by simp
  then show ?thesis using m compute_guess_colors_classify[OF assms] by simp
qed

theorem compute_guess_colors_is_two_pass_witness:
  "length ''crane'' = 5 \<and> length ''Apple'' = 5
   \<and> compute_guess_colors ''crane'' ''Apple''
        = Inr (map as_colored (classify (upper ''crane'') (upper ''Apple'')))
   \<and> length (classify (upper ''crane'') (upper ''Apple'')) = 5
   \<and> map fst (classify (upper ''crane'') (upper ''Apple'')) = upper ''crane''"
proof -
  have h1: "length ''crane'' = 5" and h2: "length ''Apple'' = 5" by simp_all
  show ?thesis using h1 h2 compute_guess_colors_is_two_pass[OF h1 h2] by blast
qed


subsection \<open>No letter is credited more often than the target holds it\<close>

lemma snd_spec_pass1:
  "snd (spec_pass1 g t f) L
     = f L - int (length (filter (\<lambda>(a, b). a = b \<and> a = L) (zip g t)))"
  by (induction g t f rule: spec_pass1.induct) (auto simp: case_prod_unfold Let_def fun_upd_def)

lemma matches_le_count:
  "length (filter (\<lambda>(a, b). a = b \<and> a = L) (zip g t)) \<le> count_list t L"
proof (induction g arbitrary: t)
  case Nil
  then show ?case by simp
next
  case (Cons a g)
  show ?case
  proof (cases t)
    case Nil
    then show ?thesis by simp
  next
    case (Cons b t')
    then show ?thesis using Cons.IH[of t'] by auto
  qed
qed

lemma exact_spec_pass2:
  "length ms = length g \<Longrightarrow>
   class_count L EXACT (spec_pass2 g ms f) = length (filter (\<lambda>(a, m). m \<and> a = L) (zip g ms))"
  by (induction g ms f rule: spec_pass2.induct) (auto simp: class_count_def)

lemma present_spec_pass2:
  "0 \<le> f L \<Longrightarrow> int (class_count L PRESENT (spec_pass2 g ms f)) \<le> f L"
  by (induction g ms f rule: spec_pass2.induct) (auto simp: class_count_def)

lemma marks_filter:
  "length (filter (\<lambda>(a, m). m \<and> a = L) (zip g (map (\<lambda>(a, b). a = b) (zip g t))))
     = length (filter (\<lambda>(a, b). a = b \<and> a = L) (zip g t))"
proof (induction g arbitrary: t)
  case Nil
  then show ?case by simp
next
  case (Cons a g)
  then show ?case by (cases t) auto
qed

lemma classify_claims:
  assumes "length guess = length target"
  shows "class_count L EXACT (classify guess target) + class_count L PRESENT (classify guess target)
           \<le> count_list target L"
proof -
  let ?p = "spec_pass1 guess target (frequency_count target)"
  let ?E = "length (filter (\<lambda>(a, b). a = b \<and> a = L) (zip guess target))"
  have rem: "snd ?p L = int (count_list target L) - int ?E"
    by (simp add: snd_spec_pass1 frequency_count_def)
  have nonneg: "0 \<le> snd ?p L"
    using rem matches_le_count[of L guess target] by simp
  have lm: "length (fst ?p) = length guess" using assms by (simp add: fst_spec_pass1)
  have cl: "classify guess target = spec_pass2 guess (fst ?p) (snd ?p)"
    by (simp add: classify_def case_prod_unfold Let_def)
  have "class_count L EXACT (classify guess target)
          = length (filter (\<lambda>(a, m). m \<and> a = L) (zip guess (fst ?p)))"
    using exact_spec_pass2[OF lm, of L "snd ?p"] by (simp only: cl)
  then have ex: "class_count L EXACT (classify guess target) = ?E"
    by (simp only: fst_spec_pass1 marks_filter)
  have pr: "int (class_count L PRESENT (classify guess target)) \<le> snd ?p L"
    using nonneg present_spec_pass2[where f="snd ?p" and L=L and g=guess and ms="fst ?p"]
    by (simp only: cl)
  show ?thesis using ex pr rem by linarith
qed

lemma claimed_Cons:
  "claimed (as_colored (c, k) # rs) L
     = (if c = L \<and> k \<noteq> ABSENT then Suc (claimed rs L) else claimed rs L)"
  by (cases k) (simp_all add: claimed_def as_colored_def)

lemma class_count_Cons:
  "class_count L k ((c, k') # out) = (if c = L \<and> k' = k then Suc (class_count L k out) else class_count L k out)"
  by (simp add: class_count_def)

lemma claimed_as_colored:
  "claimed (map as_colored out) L = class_count L EXACT out + class_count L PRESENT out"
proof (induction out)
  case Nil
  then show ?case by (simp add: claimed_def class_count_def)
next
  case (Cons p out)
  obtain c k where p: "p = (c, k)" by (cases p)
  show ?case using Cons by (cases k) (simp_all add: p claimed_Cons class_count_Cons)
qed


text \<open>
  C3. For 5-letter strings \<open>guess\<close> and \<open>target\<close> and every letter \<open>L\<close>, the positions
  of the result that carry \<open>L\<close> and are green (EXACT) or orange (PRESENT) are at most as
  many as the occurrences of \<open>L\<close> in the target, the target read as the function reads
  it: case-normalised.
\<close>

theorem claimed_le_target_count:
  assumes "length guess = 5" and "length target = 5"
  shows "\<exists>result. compute_guess_colors guess target = Inr result
           \<and> claimed result L \<le> count_list (upper target) L"
  using assms classify_claims[of "upper guess" "upper target" L]
  by (simp add: compute_guess_colors_classify claimed_as_colored length_upper)

theorem claimed_le_target_count_witness:
  "length ''POPUP'' = 5 \<and> length ''APPLE'' = 5
   \<and> (\<exists>result. compute_guess_colors ''POPUP'' ''APPLE'' = Inr result
         \<and> claimed result CHR ''P'' \<le> count_list (upper ''APPLE'') CHR ''P'')"
proof -
  have h1: "length ''POPUP'' = 5" and h2: "length ''APPLE'' = 5" by simp_all
  show ?thesis using h1 h2 claimed_le_target_count[OF h1 h2, of "CHR ''P''"] by blast
qed


subsection \<open>The examples of the specification\<close>

text \<open>
  C4, as the specification states it: for POPUP against APPLE position 2 is EXACT, and
  for EERIE against LEMON position 0 is PRESENT and position 1 is ABSENT. The second
  part does not hold: LEMON has its only E at position 1, where EERIE has an E too, so
  pass 1 gives position 1 EXACT and nothing is left for the E at position 0.
\<close>

theorem spec_examples_counterexample:
  "\<not> (projr (compute_guess_colors ''POPUP'' ''APPLE'') ! 2 = (''P'', color_of EXACT)
      \<and> projr (compute_guess_colors ''EERIE'' ''LEMON'') ! 0 = (''E'', color_of PRESENT)
      \<and> projr (compute_guess_colors ''EERIE'' ''LEMON'') ! 1 = (''E'', color_of ABSENT))"
  by code_simp

text \<open>
  C4, amended: for POPUP against APPLE position 2 is EXACT (position 0 is PRESENT, the
  rest ABSENT); for EERIE against LEMON position 1 is EXACT and every other position,
  position 0 among them, is ABSENT.
\<close>

theorem spec_examples_amended:
  "compute_guess_colors ''POPUP'' ''APPLE''
     = Inr (map as_colored [(CHR ''P'', PRESENT), (CHR ''O'', ABSENT), (CHR ''P'', EXACT),
                            (CHR ''U'', ABSENT), (CHR ''P'', ABSENT)])
   \<and> compute_guess_colors ''EERIE'' ''LEMON''
     = Inr (map as_colored [(CHR ''E'', ABSENT), (CHR ''E'', EXACT), (CHR ''R'', ABSENT),
                            (CHR ''I'', ABSENT), (CHR ''E'', ABSENT)])"
  by code_simp


subsection \<open>Case-insensitivity\<close>

lemma upper_char_idem: "upper_char (upper_char c) = upper_char c"
  by (simp add: upper_char_def ascii_lowercase_def ascii_uppercase_def)

lemma upper_lower_char: "upper_char (lower_char c) = upper_char c"
  by (simp add: upper_char_def lower_char_def ascii_lowercase_def ascii_uppercase_def)

lemma upper_idem: "upper (upper s) = upper s"
  by (simp add: upper_def upper_char_idem)

lemma upper_lower: "upper (lower s) = upper s"
  by (simp add: upper_def lower_def upper_lower_char)

lemma upper_casing: "is_casing_of s' s \<Longrightarrow> upper s' = upper s"
  unfolding is_casing_of_def upper_def
  by (induction rule: list_all2_induct) (auto simp: upper_char_idem upper_lower_char)

lemma compute_guess_colors_cong:
  "upper guess = upper guess' \<Longrightarrow> upper target = upper target' \<Longrightarrow>
   compute_guess_colors guess target = compute_guess_colors guess' target'"
  by (simp add: compute_guess_colors_def)


text \<open>
  C9. \<open>compute_guess_colors\<close> is case-insensitive: the lowercased guess against the
  uppercased target gives what the uppercased guess gives, and so does any casing of
  the guess against any casing of the target.
\<close>

theorem compute_guess_colors_case_insensitive:
  "compute_guess_colors (lower G) (upper T) = compute_guess_colors (upper G) (upper T)
   \<and> (is_casing_of G' G \<longrightarrow> is_casing_of T' T \<longrightarrow>
        compute_guess_colors G' T' = compute_guess_colors (upper G) (upper T))"
proof (intro conjI impI)
  show "compute_guess_colors (lower G) (upper T) = compute_guess_colors (upper G) (upper T)"
    by (rule compute_guess_colors_cong) (simp_all add: upper_idem upper_lower)
next
  assume "is_casing_of G' G" "is_casing_of T' T"
  then show "compute_guess_colors G' T' = compute_guess_colors (upper G) (upper T)"
    by (intro compute_guess_colors_cong) (simp_all add: upper_idem upper_casing)
qed

theorem compute_guess_colors_case_insensitive_witness:
  "is_casing_of ''cRaNe'' ''Crane'' \<and> is_casing_of ''aPPle'' ''apple''
   \<and> compute_guess_colors (lower ''Crane'') (upper ''apple'')
        = compute_guess_colors (upper ''Crane'') (upper ''apple'')
   \<and> compute_guess_colors ''cRaNe'' ''aPPle''
        = compute_guess_colors (upper ''Crane'') (upper ''apple'')"
proof -
  have h1: "is_casing_of ''cRaNe'' ''Crane''" by code_simp
  have h2: "is_casing_of ''aPPle'' ''apple''" by code_simp
  show ?thesis
    using h1 h2 compute_guess_colors_case_insensitive[of "''Crane''" "''apple''" "''cRaNe''" "''aPPle''"]
    by blast
qed


section \<open>The guess form accepts the stripped, uppercased five letters\<close>

lemma uppercase_not_lowercase: "c \<in> set ascii_uppercase \<Longrightarrow> c \<notin> set ascii_lowercase"
  by (auto simp: ascii_lowercase_def ascii_uppercase_def)

lemma uppercase_isalpha: "c \<in> set ascii_uppercase \<Longrightarrow> isalpha_char c"
  by (simp add: isalpha_char_def)

lemma isalpha_not_space: "isalpha_char c \<Longrightarrow> \<not> isspace_char c"
  by (auto simp: isalpha_char_def isspace_char_def ascii_lowercase_def ascii_uppercase_def
      whitespace_def)

lemma isalpha_not_null: "isalpha_char c \<Longrightarrow> c \<noteq> CHR 0x00"
  by (auto simp: isalpha_char_def ascii_lowercase_def ascii_uppercase_def)

lemma upper_char_of_alpha: "isalpha_char c \<Longrightarrow> upper_char c \<in> set ascii_uppercase"
  by (auto simp: isalpha_char_def upper_char_def ascii_lowercase_def ascii_uppercase_def)

lemma upper_char_alpha_iff: "isalpha_char (upper_char c) = isalpha_char c"
  by (simp add: isalpha_char_def upper_char_def ascii_lowercase_def ascii_uppercase_def)

lemma isalpha_upper: "isalpha (upper s) = isalpha s"
  by (simp add: isalpha_def upper_def list_all_iff upper_char_alpha_iff)

lemma isupper_upper: "isalpha s \<Longrightarrow> isupper (upper s)"
proof -
  assume a: "isalpha s"
  then obtain c cs where s: "s = c # cs" by (cases s) (auto simp: isalpha_def)
  have all: "\<forall>x \<in> set s. upper_char x \<in> set ascii_uppercase"
    using a by (auto simp: isalpha_def list_all_iff upper_char_of_alpha)
  then have "\<forall>x \<in> set s. upper_char x \<notin> set ascii_lowercase"
    using uppercase_not_lowercase by blast
  moreover have "upper_char c \<in> set ascii_uppercase" using all s by simp
  ultimately show ?thesis
    unfolding isupper_def upper_def list_ex_iff using s by auto
qed

lemma strip_id:
  assumes "s \<noteq> []" "\<not> isspace_char (hd s)" "\<not> isspace_char (last s)"
  shows "strip s = s"
proof -
  have 1: "dropWhile isspace_char s = s" using assms by (simp add: dropWhile_eq_self_iff)
  have 2: "dropWhile isspace_char (rev s) = rev s"
    using assms by (simp add: dropWhile_eq_self_iff hd_rev)
  show ?thesis by (simp add: strip_def 1 2)
qed

lemma strip_isalpha: "isalpha s \<Longrightarrow> strip s = s"
proof -
  assume a: "isalpha s"
  then have ne: "s \<noteq> []" by (simp add: isalpha_def)
  then have "hd s \<in> set s" "last s \<in> set s" by simp_all
  then have "\<not> isspace_char (hd s)" "\<not> isspace_char (last s)"
    using a by (auto simp: isalpha_def list_all_iff isalpha_not_space)
  then show ?thesis using ne by (rule_tac strip_id)
qed

lemma GuessForm_accepts:
  assumes "length (strip raw) = 5" "isalpha (strip raw)"
  shows "GuessForm (Some raw) = Inr (upper (strip raw))"
proof -
  have "CHR 0x00 \<notin> set (strip raw)"
    using assms(2) isalpha_not_null by (auto simp: isalpha_def list_all_iff)
  moreover have "strip raw \<noteq> []" using assms(1) by auto
  ultimately have "CharField_clean (Some raw) = Inr (strip raw)"
    using assms(1) by (simp add: CharField_clean_def Let_def)
  then show ?thesis
    using assms by (simp add: GuessForm_def clean_guess_def Let_def length_upper isalpha_upper)
qed

lemma GuessForm_Inr:
  assumes "GuessForm d = Inr t"
  shows "length t = 5 \<and> isalpha t \<and> isupper t \<and> upper t = t"
proof -
  from assms obtain v where v: "CharField_clean d = Inr v" "clean_guess v = Inr t"
    by (auto simp: GuessForm_def split: sum.splits)
  from v(2) have t: "t = upper v" "length (upper v) = 5" "isalpha (upper v)"
    by (auto simp: clean_guess_def Let_def split: if_splits)
  then have "isalpha v" by (simp add: isalpha_upper)
  then have "isupper (upper v)" by (rule isupper_upper)
  then show ?thesis using t by (simp add: upper_idem)
qed



section \<open>Submitting a guess\<close>

lemma get_object_or_404_Some:
  "get_object_or_404 st gid u = Some g \<Longrightarrow> g \<in> set (games st) \<and> game_id g = gid \<and> game_user g = u"
  by (auto simp: get_object_or_404_def find_Some_iff)

lemma find_replaced:
  assumes "find (\<lambda>x. game_id x = gid \<and> game_user x = u) xs = Some g"
    and "game_id g' = gid" and "game_user g' = u"
  shows "find (\<lambda>x. game_id x = gid \<and> game_user x = u)
           (map (\<lambda>x. if game_id x = gid then g' else x) xs) = Some g'"
  using assms by (induction xs) (auto split: if_splits)

lemma get_object_after_save:
  assumes "get_object_or_404 st gid u = Some g" and "games st1 = games st"
    and "game_id g' = gid" and "game_user g' = u"
  shows "get_object_or_404 (Game_save st1 g') gid u = Some g'"
  using find_replaced[of gid u "games st" g g'] assms
  by (simp add: get_object_or_404_def Game_save_def)

lemma no_guess_at_next_index:
  assumes "guess_indices_contiguous st gid"
  shows "\<not> list_ex (\<lambda>y. Guess_game y = gid \<and> Guess_index y = Suc (length (guesses_of st gid)))
           (guesses st)"
proof
  assume "list_ex (\<lambda>y. Guess_game y = gid \<and> Guess_index y = Suc (length (guesses_of st gid)))
           (guesses st)"
  then obtain y where y: "y \<in> set (guesses st)" "Guess_game y = gid"
      "Guess_index y = Suc (length (guesses_of st gid))"
    by (auto simp: list_ex_iff)
  then have "y \<in> set (guesses_of st gid)" by (simp add: guesses_of_def)
  then have "Guess_index y \<in> set (map Guess_index (guesses_of st gid))" by simp
  then have "Guess_index y \<in> set [1 ..< Suc (length (guesses_of st gid))]"
    using assms by (simp only: guess_indices_contiguous_def)
  then show False using y(3) by simp
qed

lemma submit_guess_accepted:
  assumes "req_user request = Some u" and "req_method request = ''POST''"
    and "get_object_or_404 st gid u = Some g"
    and "finished_at g = None" and "guesses_count st g < 5"
    and "guess_indices_contiguous st gid"
    and "GuessForm (req_guess request) = Inr text"
  shows "submit_guess st request gid now =
     (let st1 = st\<lparr>guesses := guesses st @ [\<lparr>Guess_game = gid, Guess_text = text,
                     Guess_index = guesses_count st g + 1, Guess_created_at = now\<rparr>]\<rparr>
      in if text = target_word g
         then (Won, Game_save st1 (g\<lparr>won := True, finished_at := Some now\<rparr>))
         else if guesses_count st g + 1 \<ge> 5
         then (Lost, Game_save st1 (g\<lparr>finished_at := Some now, won := False\<rparr>))
         else (NotQuite (5 - (guesses_count st g + 1)), st1))"
proof -
  have gid: "game_id g = gid" using assms(3) by (simp add: get_object_or_404_Some)
  have cg: "can_guess st g" using assms(4,5) by (simp add: can_guess_def is_finished_def)
  have n: "guesses_count st g = length (guesses_of st gid)"
    by (simp add: guesses_count_def gid)
  have t: "length text = 5" "isalpha text" "isupper text" "upper text = text"
    using GuessForm_Inr[OF assms(7)] by simp_all
  let ?x = "\<lparr>Guess_game = gid, Guess_text = text,
             Guess_index = guesses_count st g + 1, Guess_created_at = now\<rparr>"
  have "Guess_full_clean st ?x"
    using t assms(5) no_guess_at_next_index[OF assms(6)]
    by (simp add: Guess_full_clean_def validate_uppercase_5letter_def n)
  then have "Guess_create st ?x = Inr (st\<lparr>guesses := guesses st @ [?x]\<rparr>)"
    using t(4) by (simp add: Guess_create_def)
  then show ?thesis
    using assms(1,2,3,7) cg gid by (simp add: submit_guess_def Let_def)
qed

text \<open>
  C2. On an ACTIVE game with fewer than 5 recorded guesses (whose guesses are numbered
  1, 2, ... as the data model has it), a POST with a 5-letter alphabetic guess records
  the uppercased guess with index = previous guess count + 1. Then: if the uppercased
  guess is the target word the answer is the win and the game is stored won with its
  completion time set, also when this was the 5th guess; else if this was the 5th guess
  the answer is the loss and the game is stored lost with its completion time set;
  otherwise the game is left as it was, active.
\<close>

theorem submit_guess_valid:
  assumes "req_user request = Some u" and "req_method request = ''POST''"
    and "req_guess request = Some raw" and "length raw = 5" and "isalpha raw"
    and "get_object_or_404 st gid u = Some g"
    and "finished_at g = None" and "guesses_count st g < 5"
    and "guess_indices_contiguous st gid"
  shows "guesses (snd (submit_guess st request gid now))
           = guesses st @ [\<lparr>Guess_game = gid, Guess_text = upper raw,
                             Guess_index = guesses_count st g + 1, Guess_created_at = now\<rparr>]
         \<and> (if upper raw = target_word g then
               fst (submit_guess st request gid now) = Won
               \<and> get_object_or_404 (snd (submit_guess st request gid now)) gid u
                    = Some (g\<lparr>won := True, finished_at := Some now\<rparr>)
             else if guesses_count st g + 1 = 5 then
               fst (submit_guess st request gid now) = Lost
               \<and> get_object_or_404 (snd (submit_guess st request gid now)) gid u
                    = Some (g\<lparr>finished_at := Some now, won := False\<rparr>)
             else
               fst (submit_guess st request gid now) = NotQuite (4 - guesses_count st g)
               \<and> games (snd (submit_guess st request gid now)) = games st
               \<and> get_object_or_404 (snd (submit_guess st request gid now)) gid u = Some g)"
proof -
  have s: "strip raw = raw" using assms(5) by (rule strip_isalpha)
  have form: "GuessForm (req_guess request) = Inr (upper raw)"
    using GuessForm_accepts[of raw] assms(3,4,5) by (simp add: s)
  have ids: "game_id g = gid" "game_user g = u"
    using assms(6) by (simp_all add: get_object_or_404_Some)
  let ?st1 = "st\<lparr>guesses := guesses st @ [\<lparr>Guess_game = gid, Guess_text = upper raw,
                     Guess_index = guesses_count st g + 1, Guess_created_at = now\<rparr>]\<rparr>"
  note eq = submit_guess_accepted[OF assms(1,2,6,7,8,9) form, of now]
  have w: "get_object_or_404 (Game_save ?st1 (g\<lparr>won := True, finished_at := Some now\<rparr>)) gid u
             = Some (g\<lparr>won := True, finished_at := Some now\<rparr>)"
    by (rule get_object_after_save[OF assms(6)]) (simp_all add: ids)
  have l: "get_object_or_404 (Game_save ?st1 (g\<lparr>finished_at := Some now, won := False\<rparr>)) gid u
             = Some (g\<lparr>finished_at := Some now, won := False\<rparr>)"
    by (rule get_object_after_save[OF assms(6)]) (simp_all add: ids)
  have k: "get_object_or_404 ?st1 gid u = Some g"
    using assms(6) by (simp add: get_object_or_404_def)
  show ?thesis
  proof (cases "upper raw = target_word g")
    case True
    then show ?thesis using w by (simp add: eq Let_def Game_save_def)
  next
    case False
    show ?thesis
    proof (cases "guesses_count st g + 1 = 5")
      case True
      then show ?thesis using False l by (simp add: eq Let_def Game_save_def)
    next
      case five: False
      then have "\<not> guesses_count st g + 1 \<ge> 5" using assms(8) by simp
      then show ?thesis using False five k by (simp add: eq Let_def)
    qed
  qed
qed

theorem submit_guess_valid_witness:
  "length ''apple'' = 5 \<and> isalpha ''apple''
   \<and> get_object_or_404 example_db_four 1 1 = Some example_game
   \<and> finished_at example_game = None \<and> guesses_count example_db_four example_game < 5
   \<and> guess_indices_contiguous example_db_four 1
   \<and> upper ''apple'' = target_word example_game
   \<and> guesses_count example_db_four example_game + 1 = 5
   \<and> fst (submit_guess example_db_four (example_request ''apple'') 1 105) = Won
   \<and> guesses (snd (submit_guess example_db_four (example_request ''apple'') 1 105))
        = guesses example_db_four
            @ [\<lparr>Guess_game = 1, Guess_text = upper ''apple'',
                Guess_index = guesses_count example_db_four example_game + 1,
                Guess_created_at = 105\<rparr>]
   \<and> get_object_or_404 (snd (submit_guess example_db_four (example_request ''apple'') 1 105)) 1 1
        = Some (example_game\<lparr>won := True, finished_at := Some 105\<rparr>)"
proof -
  have h1: "req_user (example_request ''apple'') = Some 1"
    and h2: "req_method (example_request ''apple'') = ''POST''"
    and h3: "req_guess (example_request ''apple'') = Some ''apple''"
    by (simp_all add: example_request_def)
  have h4: "length ''apple'' = 5" by simp
  have h5: "isalpha ''apple''" by code_simp
  have h6: "get_object_or_404 example_db_four 1 1 = Some example_game" by code_simp
  have h7: "finished_at example_game = None" by (simp add: example_game_def)
  have h8: "guesses_count example_db_four example_game < 5" by code_simp
  have h9: "guess_indices_contiguous example_db_four 1" by code_simp
  have c1: "upper ''apple'' = target_word example_game" by code_simp
  have c2: "guesses_count example_db_four example_game + 1 = 5" by code_simp
  note t = submit_guess_valid[OF h1 h2 h3 h4 h5 h6 h7 h8 h9, of 105]
  have "fst (submit_guess example_db_four (example_request ''apple'') 1 105) = Won
     \<and> get_object_or_404 (snd (submit_guess example_db_four (example_request ''apple'') 1 105)) 1 1
        = Some (example_game\<lparr>won := True, finished_at := Some 105\<rparr>)"
    using t c1 by presburger
  then show ?thesis using t h4 h5 h6 h7 h8 h9 c1 c2 by blast
qed

text \<open>
  C10. The form strips leading and trailing white space before it validates: a raw
  text whose stripped form is five letters is not an invalid guess, whatever its raw
  length, and is recorded stripped and uppercased. The witness is \<open>"  hello "\<close>, of raw
  length 8, recorded as HELLO.
\<close>

theorem submit_guess_strips:
  assumes "req_user request = Some u" and "req_method request = ''POST''"
    and "req_guess request = Some raw" and "length (strip raw) = 5" and "isalpha (strip raw)"
    and "get_object_or_404 st gid u = Some g"
    and "finished_at g = None" and "guesses_count st g < 5"
    and "guess_indices_contiguous st gid"
  shows "\<not> is_InvalidGuess (fst (submit_guess st request gid now))
         \<and> guesses (snd (submit_guess st request gid now))
           = guesses st @ [\<lparr>Guess_game = gid, Guess_text = upper (strip raw),
                             Guess_index = guesses_count st g + 1, Guess_created_at = now\<rparr>]"
proof -
  have form: "GuessForm (req_guess request) = Inr (upper (strip raw))"
    using GuessForm_accepts[of raw] assms(3,4,5) by simp
  note eq = submit_guess_accepted[OF assms(1,2,6,7,8,9) form, of now]
  show ?thesis by (simp add: eq Let_def Game_save_def)
qed

theorem submit_guess_strips_witness:
  "length ''  hello '' \<noteq> 5
   \<and> length (strip ''  hello '') = 5 \<and> isalpha (strip ''  hello '')
   \<and> upper (strip ''  hello '') = ''HELLO''
   \<and> get_object_or_404 example_db 1 1 = Some example_game
   \<and> finished_at example_game = None \<and> guesses_count example_db example_game < 5
   \<and> guess_indices_contiguous example_db 1
   \<and> \<not> is_InvalidGuess (fst (submit_guess example_db (example_request ''  hello '') 1 101))
   \<and> guesses (snd (submit_guess example_db (example_request ''  hello '') 1 101))
        = guesses example_db
            @ [\<lparr>Guess_game = 1, Guess_text = upper (strip ''  hello ''),
                Guess_index = guesses_count example_db example_game + 1,
                Guess_created_at = 101\<rparr>]"
proof -
  have h1: "req_user (example_request ''  hello '') = Some 1"
    and h2: "req_method (example_request ''  hello '') = ''POST''"
    and h3: "req_guess (example_request ''  hello '') = Some ''  hello ''"
    by (simp_all add: example_request_def)
  have h4: "length (strip ''  hello '') = 5" by code_simp
  have h5: "isalpha (strip ''  hello '')" by code_simp
  have h6: "get_object_or_404 example_db 1 1 = Some example_game" by code_simp
  have h7: "finished_at example_game = None" by (simp add: example_game_def)
  have h8: "guesses_count example_db example_game < 5" by code_simp
  have h9: "guess_indices_contiguous example_db 1" by code_simp
  have c1: "length ''  hello '' \<noteq> 5" by simp
  have c2: "upper (strip ''  hello '') = ''HELLO''" by code_simp
  note t = submit_guess_strips[OF h1 h2 h3 h4 h5 h6 h7 h8 h9, of 101]
  show ?thesis using t h4 h5 h6 h7 h8 h9 c1 c2 by blast
qed





section \<open>Starting a game\<close>

lemma latest_started_mem: "latest_started xs = Some h \<Longrightarrow> h \<in> set xs"
  by (induction xs arbitrary: h) (auto split: option.splits if_splits)

lemma latest_started_None: "latest_started xs = None \<longleftrightarrow> xs = []"
  by (cases xs) (auto split: option.splits)

lemma find_snoc:
  "find P (xs @ [y]) = (case find P xs of Some x \<Rightarrow> Some x | None \<Rightarrow> if P y then Some y else None)"
  by (induction xs) auto

lemma get_or_create_frame:
  "games (snd (DailyQuota_get_or_create st u d)) = games st"
  "guesses (snd (DailyQuota_get_or_create st u d)) = guesses st"
  "words (snd (DailyQuota_get_or_create st u d)) = words st"
  by (simp_all add: DailyQuota_get_or_create_def Let_def split: option.splits)

lemma quota_count_get_or_create:
  "quota_count (snd (DailyQuota_get_or_create st u d)) u' d' = quota_count st u' d'"
  by (auto simp: quota_count_def DailyQuota_get_or_create_def Let_def find_snoc
      split: option.splits)

text \<open>
  C5. When the user's quota count for today is at least 3, a POST to \<open>start_game\<close>
  is answered with the quota message and the database is left as it was: no game row,
  the quota count unchanged.
\<close>

theorem start_game_quota_exceeded:
  assumes "req_user request = Some u" and "req_method request = ''POST''"
    and "quota_count st u today \<ge> 3"
  shows "start_game st request today now pick = (QuotaExceeded, st)"
  using assms
  by (auto simp: start_game_def quota_count_def DailyQuota_get_or_create_def Let_def
      split: option.splits)

theorem start_game_quota_exceeded_witness:
  "quota_count example_db_won 1 10 \<ge> 3
   \<and> start_game example_db_won (example_request '''') 10 200 0 = (QuotaExceeded, example_db_won)"
proof -
  have h1: "req_user (example_request '''') = Some 1"
    and h2: "req_method (example_request '''') = ''POST''"
    by (simp_all add: example_request_def)
  have h3: "quota_count example_db_won 1 10 \<ge> 3" by code_simp
  show ?thesis using h3 start_game_quota_exceeded[OF h1 h2 h3, of 200 0] by blast
qed

text \<open>
  C6. When the user's quota count for today is below 3 and the user has an active game
  (no completion time), a POST to \<open>start_game\<close> is answered with the redirect to an
  active game of that user; the games, guesses and words are unchanged and every quota
  count reads as before.
\<close>

theorem start_game_already_active:
  assumes "req_user request = Some u" and "req_method request = ''POST''"
    and "quota_count st u today < 3"
    and "g \<in> set (games st)" and "game_user g = u" and "finished_at g = None"
  shows "\<exists>active st'. start_game st request today now pick = (GameAlreadyActive (game_id active), st')
           \<and> active \<in> set (games st) \<and> game_user active = u \<and> finished_at active = None
           \<and> games st' = games st \<and> guesses st' = guesses st \<and> words st' = words st
           \<and> (\<forall>u' d'. quota_count st' u' d' = quota_count st u' d')"
proof -
  let ?st1 = "snd (DailyQuota_get_or_create st u today)"
  let ?q = "fst (DailyQuota_get_or_create st u today)"
  have q: "\<not> words_started_count ?q \<ge> 3" using assms(3) by (simp add: quota_count_def)
  have "g \<in> set (filter (\<lambda>g. game_user g = u \<and> finished_at g = None) (games ?st1))"
    using assms(4,5,6) by (simp add: get_or_create_frame)
  then have "filter (\<lambda>g. game_user g = u \<and> finished_at g = None) (games ?st1) \<noteq> []"
    by (metis empty_iff empty_set)
  then have "active_game_of ?st1 u \<noteq> None"
    by (simp add: active_game_of_def latest_started_None)
  then obtain a where a: "active_game_of ?st1 u = Some a" by auto
  then have "latest_started (filter (\<lambda>g. game_user g = u \<and> finished_at g = None) (games st))
               = Some a"
    by (simp add: active_game_of_def get_or_create_frame)
  then have "a \<in> set (filter (\<lambda>g. game_user g = u \<and> finished_at g = None) (games st))"
    by (rule latest_started_mem)
  then have mem: "a \<in> set (games st) \<and> game_user a = u \<and> finished_at a = None"
    by simp
  have "start_game st request today now pick = (GameAlreadyActive (game_id a), ?st1)"
    using assms(1,2) q a by (simp add: start_game_def case_prod_unfold Let_def)
  then show ?thesis
    using mem by (auto simp: get_or_create_frame quota_count_get_or_create)
qed

theorem start_game_already_active_witness:
  "quota_count example_db 1 10 < 3 \<and> example_game \<in> set (games example_db)
   \<and> game_user example_game = 1 \<and> finished_at example_game = None
   \<and> (\<exists>active st'.
         start_game example_db (example_request '''') 10 200 0
           = (GameAlreadyActive (game_id active), st')
         \<and> active \<in> set (games example_db) \<and> game_user active = 1 \<and> finished_at active = None
         \<and> games st' = games example_db \<and> guesses st' = guesses example_db
         \<and> words st' = words example_db
         \<and> (\<forall>u' d'. quota_count st' u' d' = quota_count example_db u' d'))"
proof -
  have h1: "req_user (example_request '''') = Some 1"
    and h2: "req_method (example_request '''') = ''POST''"
    by (simp_all add: example_request_def)
  have h3: "quota_count example_db 1 10 < 3" by code_simp
  have h4: "example_game \<in> set (games example_db)" by (simp add: example_db_def)
  have h5: "game_user example_game = 1" by (simp add: example_game_def)
  have h6: "finished_at example_game = None" by (simp add: example_game_def)
  show ?thesis
    using h3 h4 h5 h6 start_game_already_active[OF h1 h2 h3 h4 h5 h6, of 200 0] by blast
qed


section \<open>Finished games stay finished\<close>

lemma le_fold_max: "x \<in> set xs \<Longrightarrow> x \<le> fold max xs (a::nat)"
proof -
  assume "x \<in> set xs"
  then have "x \<le> Max (set (a # xs))" by simp
  then show ?thesis by (simp only: Max.set_eq_fold)
qed

lemma fresh_game_id_fresh: "g \<in> set (games st) \<Longrightarrow> game_id g \<noteq> fresh_game_id st"
proof
  assume g: "g \<in> set (games st)" and e: "game_id g = fresh_game_id st"
  have "game_id g \<in> set (map game_id (games st))" using g by simp
  then have "game_id g \<le> fold max (map game_id (games st)) 0" by (rule le_fold_max)
  then show False using e by (simp add: fresh_game_id_def)
qed

lemma quota_save_frame:
  "games (DailyQuota_save st q) = games st"
  "guesses (DailyQuota_save st q) = guesses st"
  by (simp_all add: DailyQuota_save_def)

lemma start_game_frame:
  "guesses (snd (start_game st request today now pick)) = guesses st
   \<and> (games (snd (start_game st request today now pick)) = games st
      \<or> (\<exists>new. games (snd (start_game st request today now pick)) = games st @ [new]
            \<and> game_id new = fresh_game_id st))"
  by (auto simp: start_game_def Let_def case_prod_unfold get_or_create_frame quota_save_frame
        fresh_game_id_def
      split: option.splits)

lemma start_game_preserves:
  assumes "game_ids_unique st"
  shows "game_ids_unique (snd (start_game st request today now pick))
         \<and> (\<forall>g \<in> set (games st). g \<in> set (games (snd (start_game st request today now pick))))
         \<and> guesses_of (snd (start_game st request today now pick)) i = guesses_of st i"
proof -
  let ?st' = "snd (start_game st request today now pick)"
  have gs: "guesses ?st' = guesses st" using start_game_frame by blast
  consider "games ?st' = games st"
    | new where "games ?st' = games st @ [new]" "game_id new = fresh_game_id st"
    using start_game_frame by blast
  then show ?thesis
  proof cases
    case 1
    then show ?thesis using assms gs by (simp add: game_ids_unique_def guesses_of_def)
  next
    case 2
    have "fresh_game_id st \<notin> set (map game_id (games st))"
    proof
      assume "fresh_game_id st \<in> set (map game_id (games st))"
      then obtain g where "g \<in> set (games st)" "game_id g = fresh_game_id st" by auto
      then show False using fresh_game_id_fresh by blast
    qed
    then show ?thesis using 2 assms gs by (simp add: game_ids_unique_def guesses_of_def)
  qed
qed

lemma home_preserves:
  "games (home st request today) = games st \<and> guesses (home st request today) = guesses st"
  by (simp add: home_def get_or_create_frame split: option.splits)

lemma map_game_id_replace:
  "game_id g' = gid \<Longrightarrow>
   map (game_id \<circ> (\<lambda>x. if game_id x = gid then g' else x)) xs = map game_id xs"
  by (induction xs) auto

lemma unique_same_id:
  assumes "game_ids_unique st" "a \<in> set (games st)" "b \<in> set (games st)" "game_id a = game_id b"
  shows "a = b"
  using assms by (auto simp: game_ids_unique_def distinct_map dest: inj_onD)

lemma submit_guess_cases:
  "snd (submit_guess st request gid now) = st
   \<or> (\<exists>game x g'. game \<in> set (games st) \<and> finished_at game = None \<and> game_id g' = game_id game
        \<and> Guess_game x = game_id game
        \<and> guesses (snd (submit_guess st request gid now)) = guesses st @ [x]
        \<and> (games (snd (submit_guess st request gid now)) = games st
           \<or> games (snd (submit_guess st request gid now))
                = map (\<lambda>y. if game_id y = game_id game then g' else y) (games st)))"
proof (cases "snd (submit_guess st request gid now) = st")
  case True
  then show ?thesis by simp
next
  case False
  then obtain u where u: "req_user request = Some u"
    by (cases "req_user request") (auto simp: submit_guess_def)
  from False u obtain game where game: "get_object_or_404 st gid u = Some game"
    by (cases "get_object_or_404 st gid u") (auto simp: submit_guess_def)
  from False u game have cg: "can_guess st game" and post: "req_method request = ''POST''"
    by (auto simp: submit_guess_def split: if_splits)
  from False u game cg post obtain t where t: "GuessForm (req_guess request) = Inr t"
    by (cases "GuessForm (req_guess request)") (auto simp: submit_guess_def)
  let ?x = "\<lparr>Guess_game = game_id game, Guess_text = t,
             Guess_index = guesses_count st game + 1, Guess_created_at = now\<rparr>"
  from False u game cg post t obtain st1 where st1: "Guess_create st ?x = Inr st1"
    by (cases "Guess_create st ?x") (auto simp: submit_guess_def Let_def)
  then have s1: "guesses st1 = guesses st @ [?x\<lparr>Guess_text := upper t\<rparr>]" "games st1 = games st"
    by (auto simp: Guess_create_def split: if_splits)
  have mem: "game \<in> set (games st)" "finished_at game = None"
    using game cg by (simp_all add: get_object_or_404_Some can_guess_def is_finished_def)
  have eq: "submit_guess st request gid now =
      (if t = target_word game then
         (Won, Game_save st1 (game\<lparr>won := True, finished_at := Some now\<rparr>))
       else if guesses_count st game + 1 \<ge> 5 then
         (Lost, Game_save st1 (game\<lparr>finished_at := Some now, won := False\<rparr>))
       else (NotQuite (5 - (guesses_count st game + 1)), st1))"
    using u game cg post t st1 by (simp add: submit_guess_def Let_def)
  show ?thesis
  proof (cases "t = target_word game")
    case True
    have "game \<in> set (games st) \<and> finished_at game = None
        \<and> game_id (game\<lparr>won := True, finished_at := Some now\<rparr>) = game_id game
        \<and> Guess_game (?x\<lparr>Guess_text := upper t\<rparr>) = game_id game
        \<and> guesses (snd (submit_guess st request gid now)) = guesses st @ [?x\<lparr>Guess_text := upper t\<rparr>]
        \<and> games (snd (submit_guess st request gid now))
                = map (\<lambda>y. if game_id y = game_id game then game\<lparr>won := True, finished_at := Some now\<rparr> else y) (games st)"
      using True mem s1 by (simp add: eq Game_save_def)
    then show ?thesis by blast
  next
    case nw: False
    show ?thesis
    proof (cases "guesses_count st game + 1 \<ge> 5")
      case True
      have "game \<in> set (games st) \<and> finished_at game = None
        \<and> game_id (game\<lparr>finished_at := Some now, won := False\<rparr>) = game_id game
        \<and> Guess_game (?x\<lparr>Guess_text := upper t\<rparr>) = game_id game
        \<and> guesses (snd (submit_guess st request gid now)) = guesses st @ [?x\<lparr>Guess_text := upper t\<rparr>]
        \<and> games (snd (submit_guess st request gid now))
                = map (\<lambda>y. if game_id y = game_id game then game\<lparr>finished_at := Some now, won := False\<rparr> else y) (games st)"
        using True nw mem s1 by (simp add: eq Game_save_def)
      then show ?thesis by blast
    next
      case False
      have "game \<in> set (games st) \<and> finished_at game = None
        \<and> game_id game = game_id game
        \<and> Guess_game (?x\<lparr>Guess_text := upper t\<rparr>) = game_id game
        \<and> guesses (snd (submit_guess st request gid now)) = guesses st @ [?x\<lparr>Guess_text := upper t\<rparr>]
        \<and> games (snd (submit_guess st request gid now)) = games st"
        using False nw mem s1 by (simp add: eq)
      then show ?thesis by blast
    qed
  qed
qed

lemma submit_guess_preserves:
  assumes "game_ids_unique st"
  shows "game_ids_unique (snd (submit_guess st request gid now))
         \<and> (\<forall>g \<in> set (games st). finished_at g \<noteq> None \<longrightarrow>
               g \<in> set (games (snd (submit_guess st request gid now)))
               \<and> guesses_of (snd (submit_guess st request gid now)) (game_id g)
                    = guesses_of st (game_id g))"
proof -
  let ?st' = "snd (submit_guess st request gid now)"
  consider "?st' = st"
    | game x g' where "game \<in> set (games st)" "finished_at game = None"
        "game_id g' = game_id game" "Guess_game x = game_id game"
        "guesses ?st' = guesses st @ [x]"
        "games ?st' = games st
         \<or> games ?st' = map (\<lambda>y. if game_id y = game_id game then g' else y) (games st)"
    using submit_guess_cases[of st request gid now] by blast
  then show ?thesis
  proof cases
    case 1
    then show ?thesis using assms by simp
  next
    case 2
    have "map game_id (games ?st') = map game_id (games st)"
    proof (rule disjE[OF 2(6)])
      assume "games ?st' = games st"
      then show ?thesis by simp
    next
      assume "games ?st' = map (\<lambda>y. if game_id y = game_id game then g' else y) (games st)"
      then show ?thesis using map_game_id_replace[OF 2(3), of "games st"] by simp
    qed
    then have uniq: "game_ids_unique ?st'"
      using assms by (simp add: game_ids_unique_def)
    have other: "\<And>g. g \<in> set (games st) \<Longrightarrow> finished_at g \<noteq> None \<Longrightarrow> game_id g \<noteq> game_id game"
    proof
      fix g assume g: "g \<in> set (games st)" "finished_at g \<noteq> None"
        and e: "game_id g = game_id game"
      have "g = game" by (rule unique_same_id[OF assms g(1) 2(1) e])
      then show False using g(2) 2(2) by simp
    qed
    have "\<And>g. g \<in> set (games st) \<Longrightarrow> finished_at g \<noteq> None \<Longrightarrow>
            g \<in> set (games ?st') \<and> guesses_of ?st' (game_id g) = guesses_of st (game_id g)"
    proof -
      fix g assume g: "g \<in> set (games st)" "finished_at g \<noteq> None"
      then have ne: "game_id g \<noteq> game_id game" by (rule other)
      have "g \<in> set (games ?st')"
        using 2(6) g(1) ne by (auto simp: image_iff)
      moreover have "guesses_of ?st' (game_id g) = guesses_of st (game_id g)"
        using 2(4,5) ne by (simp add: guesses_of_def)
      ultimately show "g \<in> set (games ?st') \<and> guesses_of ?st' (game_id g) = guesses_of st (game_id g)"
        by simp
    qed
    then show ?thesis using uniq by blast
  qed
qed

lemma step_preserves:
  assumes "step st st'" and "game_ids_unique st"
  shows "game_ids_unique st'
         \<and> (\<forall>g \<in> set (games st). finished_at g \<noteq> None \<longrightarrow>
               g \<in> set (games st') \<and> guesses_of st' (game_id g) = guesses_of st (game_id g))"
  using assms
proof (cases rule: step.cases)
  case (step_home request today)
  then show ?thesis using assms(2) home_preserves[of st request today]
    by (simp add: game_ids_unique_def guesses_of_def)
next
  case (step_start request today now pick)
  then show ?thesis using start_game_preserves[OF assms(2), of request today now pick] by simp
next
  case (step_guess request gid now)
  then show ?thesis using submit_guess_preserves[OF assms(2), of request gid now] by simp
qed

lemma steps_preserve:
  assumes "rtranclp step st st'" and "game_ids_unique st"
  shows "game_ids_unique st'
         \<and> (\<forall>g \<in> set (games st). finished_at g \<noteq> None \<longrightarrow>
               g \<in> set (games st') \<and> guesses_of st' (game_id g) = guesses_of st (game_id g))"
  using assms
proof (induction rule: rtranclp_induct)
  case base
  then show ?case by simp
next
  case (step y z)
  then show ?case using step_preserves[OF step.hyps(2)] by fastforce
qed

text \<open>
  C7. A guess submitted to a game that is finished (completion time set) or has 5
  recorded guesses is answered with the game-finished message and leaves the database
  as it was. And over any sequence of requests to the handlers, a finished game keeps
  its row (won flag and completion time included) and its guesses.
\<close>

theorem finished_game_is_final:
  "(req_user request = Some u \<and> get_object_or_404 st gid u = Some g
      \<and> (finished_at g \<noteq> None \<or> guesses_count st g \<ge> 5)
      \<longrightarrow> submit_guess st request gid now = (GameFinished, st))
   \<and> (game_ids_unique st \<and> rtranclp step st st' \<and> g' \<in> set (games st) \<and> finished_at g' \<noteq> None
      \<longrightarrow> g' \<in> set (games st') \<and> guesses_of st' (game_id g') = guesses_of st (game_id g'))"
proof (intro conjI impI)
  assume "req_user request = Some u \<and> get_object_or_404 st gid u = Some g
      \<and> (finished_at g \<noteq> None \<or> guesses_count st g \<ge> 5)"
  then show "submit_guess st request gid now = (GameFinished, st)"
    by (auto simp: submit_guess_def can_guess_def is_finished_def)
next
  assume a: "game_ids_unique st \<and> rtranclp step st st' \<and> g' \<in> set (games st) \<and> finished_at g' \<noteq> None"
  then show "g' \<in> set (games st')" using steps_preserve[of st st'] by blast
  from a show "guesses_of st' (game_id g') = guesses_of st (game_id g')"
    using steps_preserve[of st st'] by blast
qed

theorem finished_game_is_final_witness:
  "req_user (example_request ''BRAVE'') = Some 1
   \<and> get_object_or_404 example_db_won 1 1 = Some example_game_won
   \<and> finished_at example_game_won \<noteq> None
   \<and> game_ids_unique example_db_won
   \<and> rtranclp step example_db_won (snd (start_game example_db_won (example_request '''') 11 200 1))
   \<and> example_game_won \<in> set (games example_db_won)
   \<and> submit_guess example_db_won (example_request ''BRAVE'') 1 102 = (GameFinished, example_db_won)
   \<and> example_game_won \<in> set (games (snd (start_game example_db_won (example_request '''') 11 200 1)))
   \<and> guesses_of (snd (start_game example_db_won (example_request '''') 11 200 1)) (game_id example_game_won)
        = guesses_of example_db_won (game_id example_game_won)"
proof -
  have h1: "req_user (example_request ''BRAVE'') = Some 1" by (simp add: example_request_def)
  have h2: "get_object_or_404 example_db_won 1 1 = Some example_game_won" by code_simp
  have h3: "finished_at example_game_won \<noteq> None" by (simp add: example_game_won_def)
  have h4: "game_ids_unique example_db_won" by code_simp
  have h5: "rtranclp step example_db_won
              (snd (start_game example_db_won (example_request '''') 11 200 1))"
    by (rule r_into_rtranclp) (rule step_start)
  have h6: "example_game_won \<in> set (games example_db_won)" by (simp add: example_db_won_def)
  show ?thesis
    using h1 h2 h3 h4 h5 h6
      finished_game_is_final[of "example_request ''BRAVE''" 1 example_db_won 1 example_game_won
        102 "snd (start_game example_db_won (example_request '''') 11 200 1)" example_game_won]
    by blast
qed


section \<open>The invariants of the data model hold in every reachable state\<close>

lemma submit_guess_guesses:
  "guesses (snd (submit_guess st request gid now)) = guesses st
   \<or> (\<exists>t. guesses (snd (submit_guess st request gid now))
            = guesses st @ [\<lparr>Guess_game = gid, Guess_text = t,
                              Guess_index = Suc (length (guesses_of st gid)),
                              Guess_created_at = now\<rparr>])"
proof (cases "req_user request")
  case None
  then show ?thesis by (simp add: submit_guess_def)
next
  case (Some u)
  show ?thesis
  proof (cases "get_object_or_404 st gid u")
    case None
    then show ?thesis using Some by (simp add: submit_guess_def)
  next
    case (Some game)
    then have "game_id game = gid" by (simp add: get_object_or_404_Some)
    then show ?thesis
      using Some \<open>req_user request = Some u\<close>
      by (auto simp: submit_guess_def Let_def Guess_create_def Game_save_def guesses_count_def
          split: sum.splits if_splits)
  qed
qed

lemma submit_guess_contiguous:
  assumes "\<forall>i. guess_indices_contiguous st i"
  shows "guess_indices_contiguous (snd (submit_guess st request gid now)) i"
proof -
  let ?st' = "snd (submit_guess st request gid now)"
  consider "guesses ?st' = guesses st"
    | t where "guesses ?st' = guesses st @ [\<lparr>Guess_game = gid, Guess_text = t,
                              Guess_index = Suc (length (guesses_of st gid)),
                              Guess_created_at = now\<rparr>]"
    using submit_guess_guesses[of st request gid now] by blast
  then show ?thesis
  proof cases
    case 1
    then show ?thesis using assms by (simp add: guess_indices_contiguous_def guesses_of_def)
  next
    case 2
    show ?thesis
    proof (cases "i = gid")
      case True
      have "map Guess_index (guesses_of st gid) = [1 ..< Suc (length (guesses_of st gid))]"
        using assms by (simp add: guess_indices_contiguous_def)
      then show ?thesis
        using 2 True by (simp add: guess_indices_contiguous_def guesses_of_def)
    next
      case False
      then show ?thesis
        using 2 assms by (simp add: guess_indices_contiguous_def guesses_of_def)
    qed
  qed
qed

lemma step_contiguous:
  assumes "step st st'" and "\<forall>i. guess_indices_contiguous st i"
  shows "\<forall>i. guess_indices_contiguous st' i"
  using assms
proof (cases rule: step.cases)
  case (step_home request today)
  then show ?thesis using assms(2) home_preserves[of st request today]
    by (simp add: guess_indices_contiguous_def guesses_of_def)
next
  case (step_start request today now pick)
  then show ?thesis using assms(2) start_game_frame[of st request today now pick]
    by (simp add: guess_indices_contiguous_def guesses_of_def)
next
  case (step_guess request gid now)
  then show ?thesis using submit_guess_contiguous[OF assms(2)] by simp
qed

lemma reachable_invariants:
  assumes "rtranclp step st st'"
    and "game_ids_unique st" and "\<forall>i. guess_indices_contiguous st i"
  shows "game_ids_unique st' \<and> (\<forall>i. guess_indices_contiguous st' i)"
  using assms
proof (induction rule: rtranclp_induct)
  case base
  then show ?case by simp
next
  case (step y z)
  then show ?case using step_preserves[OF step.hyps(2)] step_contiguous[OF step.hyps(2)] by blast
qed

lemma empty_db_invariants:
  "game_ids_unique \<lparr>words = ws, games = [], guesses = [], quotas = []\<rparr>
   \<and> (\<forall>i. guess_indices_contiguous \<lparr>words = ws, games = [], guesses = [], quotas = []\<rparr> i)"
  by (simp add: game_ids_unique_def guess_indices_contiguous_def guesses_of_def)

end
